theory Spec2Isabelle
  imports Complex_Main "HOL-Library.Log_Nat"
begin

section \<open>Python floats: binary64 arithmetic on rationals\<close>

text \<open>
  The conversion functions of \<^verbatim>\<open>src/color_converter.py\<close> compute on Python floats
  (IEEE 754 binary64, round to nearest, ties to even). A finite double is a rational
  number, so a float is modelled by its value in \<^typ>\<open>rat\<close>, and every arithmetic
  operation of the source is the exact operation followed by \<open>fl\<close>, the rounding to
  the nearest double. Magnitudes of \<open>2 ^ 1024\<close> and more, where Python raises
  \<^verbatim>\<open>OverflowError\<close> or computes with infinities, are outside the model: the callers clamp
  every argument to its slider range first, and the statements below bound their inputs.
\<close>

type_synonym pyfloat = rat

datatype py_error = ZeroDivisionError

text \<open>Python's \<^verbatim>\<open>round(x)\<close> on a float: nearest integer, ties to the even one.\<close>

definition py_round :: "rat \<Rightarrow> int" where
  "py_round x =
     (let n = \<lfloor>x\<rfloor>; d = x - of_int n
      in if d < 1 / 2 then n else if 1 / 2 < d then n + 1
         else if even n then n else n + 1)"

text \<open>The binary exponent of a positive rational: \<open>2 powi ilog2 x \<le> x < 2 powi (ilog2 x + 1)\<close>.\<close>

definition ilog2 :: "rat \<Rightarrow> int" where
  "ilog2 x =
     (let (a, b) = quotient_of x; d = bitlen a - bitlen b
      in if 2 powi d \<le> x then d else d - 1)"

text \<open>
  Rounding to binary64: 53 significant bits, and the fixed quantum \<open>2 powi (- 1074)\<close>
  below the smallest normal number \<open>2 powi (- 1022)\<close>.
\<close>

definition fl :: "rat \<Rightarrow> pyfloat" where
  "fl x =
     (if x = 0 then 0
      else let q = 2 powi (max (ilog2 \<bar>x\<bar>) (- 1022) - 52)
           in of_int (py_round (x / q)) * q)"

definition fl_add :: "pyfloat \<Rightarrow> pyfloat \<Rightarrow> pyfloat" where
  "fl_add x y = fl (x + y)"

definition fl_sub :: "pyfloat \<Rightarrow> pyfloat \<Rightarrow> pyfloat" where
  "fl_sub x y = fl (x - y)"

definition fl_mul :: "pyfloat \<Rightarrow> pyfloat \<Rightarrow> pyfloat" where
  "fl_mul x y = fl (x * y)"

text \<open>Division where the source has made sure that the divisor is not zero.\<close>

definition fl_quot :: "pyfloat \<Rightarrow> pyfloat \<Rightarrow> pyfloat" where
  "fl_quot x y = fl (x / y)"

text \<open>Division in general: Python raises \<^verbatim>\<open>ZeroDivisionError\<close>.\<close>

definition fl_div :: "pyfloat \<Rightarrow> pyfloat \<Rightarrow> py_error + pyfloat" where
  "fl_div x y = (if y = 0 then Inl ZeroDivisionError else Inr (fl_quot x y))"

text \<open>An \<^verbatim>\<open>int\<close> operand of a float operation is converted to the nearest double.\<close>

definition fl_of_int :: "int \<Rightarrow> pyfloat" where
  "fl_of_int n = fl (of_int n)"

text \<open>
  Python's \<^verbatim>\<open>v % w\<close> on floats, for \<open>w \<noteq> 0\<close>: C's \<^verbatim>\<open>fmod\<close> is exact and has the sign of
  \<open>v\<close>; a nonzero remainder whose sign differs from the sign of \<open>w\<close> is moved by the
  floating-point addition of \<open>w\<close>.
\<close>

definition c_fmod :: "pyfloat \<Rightarrow> pyfloat \<Rightarrow> pyfloat" where
  "c_fmod v w =
     (let t = v / w; n = (if 0 \<le> t then \<lfloor>t\<rfloor> else \<lceil>t\<rceil>) in v - of_int n * w)"

definition fl_mod :: "pyfloat \<Rightarrow> pyfloat \<Rightarrow> pyfloat" where
  "fl_mod v w =
     (let m = c_fmod v w
      in if m \<noteq> 0 then (if (w < 0) \<noteq> (m < 0) then fl_add m w else m) else 0)"

section \<open>ColorConverter\<close>

text \<open>\<^verbatim>\<open>max(0, min(255, round(x)))\<close>, the last step of both conversions to RGB.\<close>

definition to_channel :: "pyfloat \<Rightarrow> int" where
  "to_channel x = max 0 (min 255 (py_round x))"

subsection \<open>\<^verbatim>\<open>rgb_to_cmyk\<close>\<close>

definition norm255 :: "int \<Rightarrow> pyfloat" where
  "norm255 r = fl_quot (fl_of_int r) 255"

text \<open>\<^verbatim>\<open>k = 1 - max(r_norm, g_norm, b_norm)\<close>\<close>

definition cmyk_k :: "pyfloat \<Rightarrow> pyfloat \<Rightarrow> pyfloat \<Rightarrow> pyfloat" where
  "cmyk_k r_norm g_norm b_norm = fl_sub 1 (max (max r_norm g_norm) b_norm)"

text \<open>The divisor \<^verbatim>\<open>1 - k\<close> of the three chromatic channels.\<close>

definition cmyk_divisor :: "pyfloat \<Rightarrow> pyfloat" where
  "cmyk_divisor k = fl_sub 1 k"

text \<open>\<^verbatim>\<open>(1 - x_norm - k) / (1 - k) if (1 - k) != 0 else 0\<close>\<close>

definition cmyk_channel :: "pyfloat \<Rightarrow> pyfloat \<Rightarrow> pyfloat" where
  "cmyk_channel x_norm k =
     (if cmyk_divisor k \<noteq> 0 then fl_quot (fl_sub (fl_sub 1 x_norm) k) (cmyk_divisor k) else 0)"

definition rgb_to_cmyk :: "int \<Rightarrow> int \<Rightarrow> int \<Rightarrow> int \<times> int \<times> int \<times> int" where
  "rgb_to_cmyk r g b =
     (if r = 0 \<and> g = 0 \<and> b = 0 then (0, 0, 0, 100)
      else
        let r_norm = norm255 r; g_norm = norm255 g; b_norm = norm255 b;
            k = cmyk_k r_norm g_norm b_norm;
            c = cmyk_channel r_norm k;
            m = cmyk_channel g_norm k;
            y = cmyk_channel b_norm k
        in (py_round (fl_mul c 100), py_round (fl_mul m 100),
            py_round (fl_mul y 100), py_round (fl_mul k 100)))"

subsection \<open>\<^verbatim>\<open>cmyk_to_rgb\<close>\<close>

definition norm100 :: "int \<Rightarrow> pyfloat" where
  "norm100 c = fl_quot (fl_of_int c) 100"

definition cmyk_to_rgb :: "int \<Rightarrow> int \<Rightarrow> int \<Rightarrow> int \<Rightarrow> int \<times> int \<times> int" where
  "cmyk_to_rgb c m y k =
     (let c_norm = norm100 c; m_norm = norm100 m; y_norm = norm100 y; k_norm = norm100 k;
          r = fl_mul (fl_mul 255 (fl_sub 1 c_norm)) (fl_sub 1 k_norm);
          g = fl_mul (fl_mul 255 (fl_sub 1 m_norm)) (fl_sub 1 k_norm);
          b = fl_mul (fl_mul 255 (fl_sub 1 y_norm)) (fl_sub 1 k_norm)
      in (to_channel r, to_channel g, to_channel b))"

subsection \<open>\<^verbatim>\<open>rgb_to_hls\<close>\<close>

text \<open>
  The saturation \<^verbatim>\<open>delta / (1 - abs(2 * l - 1)) if l != 0.5 else 1\<close>; its divisor is
  not guarded.
\<close>

definition hls_saturation :: "pyfloat \<Rightarrow> pyfloat \<Rightarrow> py_error + pyfloat" where
  "hls_saturation delta l =
     (if l \<noteq> 1 / 2 then fl_div delta (fl_sub 1 \<bar>fl_sub (fl_mul 2 l) 1\<bar>) else Inr 1)"

definition hls_hue :: "pyfloat \<Rightarrow> pyfloat \<Rightarrow> pyfloat \<Rightarrow> pyfloat \<Rightarrow> pyfloat \<Rightarrow> pyfloat" where
  "hls_hue r_norm g_norm b_norm cmax delta =
     (if cmax = r_norm then fl_mul 60 (fl_mod (fl_quot (fl_sub g_norm b_norm) delta) 6)
      else if cmax = g_norm then fl_mul 60 (fl_add (fl_quot (fl_sub b_norm r_norm) delta) 2)
      else fl_mul 60 (fl_add (fl_quot (fl_sub r_norm g_norm) delta) 4))"

text \<open>
  The returned tuple is \<^verbatim>\<open>round(h % 360), round(s * 100), round(l * 100)\<close>, in this
  order.
\<close>

definition rgb_to_hls :: "int \<Rightarrow> int \<Rightarrow> int \<Rightarrow> py_error + int \<times> int \<times> int" where
  "rgb_to_hls r g b =
     (let r_norm = norm255 r; g_norm = norm255 g; b_norm = norm255 b;
          cmax = max (max r_norm g_norm) b_norm;
          cmin = min (min r_norm g_norm) b_norm;
          delta = fl_sub cmax cmin;
          l = fl_quot (fl_add cmax cmin) 2
      in if delta = 0 then Inr (py_round (fl_mod 0 360), py_round (fl_mul 0 100), py_round (fl_mul l 100))
         else
           case hls_saturation delta l of
             Inl e \<Rightarrow> Inl e
           | Inr s \<Rightarrow>
               let h = hls_hue r_norm g_norm b_norm cmax delta
               in Inr (py_round (fl_mod h 360), py_round (fl_mul s 100), py_round (fl_mul l 100)))"

subsection \<open>\<^verbatim>\<open>hls_to_rgb\<close>\<close>

definition hue_to_rgb :: "pyfloat \<Rightarrow> pyfloat \<Rightarrow> pyfloat \<Rightarrow> pyfloat" where
  "hue_to_rgb p q t0 =
     (let t1 = (if t0 < 0 then fl_add t0 1 else t0);
          t = (if 1 < t1 then fl_sub t1 1 else t1)
      in if t < fl (1 / 6) then fl_add p (fl_mul (fl_mul (fl_sub q p) 6) t)
         else if t < fl (1 / 2) then q
         else if t < fl (2 / 3) then fl_add p (fl_mul (fl_mul (fl_sub q p) (fl_sub (fl (2 / 3)) t)) 6)
         else p)"

definition hls_to_rgb :: "int \<Rightarrow> int \<Rightarrow> int \<Rightarrow> int \<times> int \<times> int" where
  "hls_to_rgb h l s =
     (let h_norm = fl_quot (fl_of_int h) 360;
          s_norm = norm100 s;
          l_norm = norm100 l
      in if s_norm = 0 then (to_channel (fl_mul l_norm 255), to_channel (fl_mul l_norm 255),
                             to_channel (fl_mul l_norm 255))
         else
           let q = (if l_norm < 1 / 2 then fl_mul l_norm (fl_add 1 s_norm)
                    else fl_sub (fl_add l_norm s_norm) (fl_mul l_norm s_norm));
               p = fl_sub (fl_mul 2 l_norm) q;
               r = hue_to_rgb p q (fl_add h_norm (fl (1 / 3)));
               g = hue_to_rgb p q h_norm;
               b = hue_to_rgb p q (fl_sub h_norm (fl (1 / 3)))
           in (to_channel (fl_mul r 255), to_channel (fl_mul g 255), to_channel (fl_mul b 255)))"

section \<open>ColorSliderGroup\<close>

text \<open>
  One slider with its numeric field. \<open>slider_value\<close> is the value of the \<^verbatim>\<open>QSlider\<close>, whose
  range \<^verbatim>\<open>setup_ui\<close> sets to \<open>[min_val, max_val]\<close>; \<open>input_text\<close> is the text of the
  \<^verbatim>\<open>QLineEdit\<close>; \<open>emitted\<close> lists the \<^verbatim>\<open>valueChanged(index, value)\<close> notifications sent so far,
  oldest first.
\<close>

record slider_group =
  index :: int
  min_val :: int
  max_val :: int
  slider_value :: int
  input_text :: string
  emitted :: "(int \<times> int) list"

text \<open>Python's \<^verbatim>\<open>str\<close> on an integer: the decimal digits, with a minus sign if negative.\<close>

function nat_digits :: "nat \<Rightarrow> string" where
  "nat_digits n =
     (if n < 10 then [''0123456789'' ! n] else nat_digits (n div 10) @ [''0123456789'' ! (n mod 10)])"
  by pat_completeness auto
termination
  by (relation "measure id") auto

definition str_int :: "int \<Rightarrow> string" where
  "str_int i = (if i < 0 then CHR ''-'' # nat_digits (nat (- i)) else nat_digits (nat i))"

text \<open>
  Python's \<^verbatim>\<open>int\<close> on a string is a parameter of the handler: \<open>parse s = None\<close> stands
  for \<^verbatim>\<open>ValueError\<close>. \<open>int_of_text\<close> is its ASCII fragment: blanks around an optional sign
  and decimal digits.
\<close>

definition is_blank :: "char \<Rightarrow> bool" where
  "is_blank c = (c \<in> set [CHR '' '', CHR 0x09, CHR 0x0A, CHR 0x0B, CHR 0x0C, CHR 0x0D])"

definition is_digit :: "char \<Rightarrow> bool" where
  "is_digit c = (48 \<le> (of_char c :: nat) \<and> (of_char c :: nat) \<le> 57)"

definition digits_value :: "string \<Rightarrow> int" where
  "digits_value ds = foldl (\<lambda>a c. 10 * a + (of_char c - 48)) 0 ds"

definition int_of_text :: "string \<Rightarrow> int option" where
  "int_of_text s =
     (let t = rev (dropWhile is_blank (rev (dropWhile is_blank s)));
          (neg, ds) = (case t of c # cs \<Rightarrow> if c = CHR ''-'' then (True, cs)
                                           else if c = CHR ''+'' then (False, cs) else (False, t)
                       | [] \<Rightarrow> (False, []))
      in if ds \<noteq> [] \<and> list_all is_digit ds
         then Some (if neg then - digits_value ds else digits_value ds) else None)"

definition emit :: "int \<Rightarrow> slider_group \<Rightarrow> slider_group" where
  "emit v st = st\<lparr>emitted := emitted st @ [(index st, v)]\<rparr>"

text \<open>\<^verbatim>\<open>on_slider_changed\<close>, the slot of the slider's own \<^verbatim>\<open>valueChanged\<close> signal.\<close>

definition on_slider_changed :: "int \<Rightarrow> slider_group \<Rightarrow> slider_group" where
  "on_slider_changed v st = emit v (st\<lparr>input_text := str_int v\<rparr>)"

text \<open>
  \<^verbatim>\<open>QSlider.setValue\<close>: the value is bounded by the slider's range, and the slider signals
  a change only if its value did change.
\<close>

definition slider_setValue :: "int \<Rightarrow> slider_group \<Rightarrow> slider_group" where
  "slider_setValue v st =
     (let v' = max (min_val st) (min (max_val st) v)
      in if v' = slider_value st then st else on_slider_changed v' (st\<lparr>slider_value := v'\<rparr>))"

text \<open>\<^verbatim>\<open>on_input_changed\<close>, the slot of the field's \<^verbatim>\<open>editingFinished\<close> signal.\<close>

definition on_input_changed :: "(string \<Rightarrow> int option) \<Rightarrow> slider_group \<Rightarrow> slider_group" where
  "on_input_changed parse st =
     (case parse (input_text st) of
        None \<Rightarrow> st\<lparr>input_text := str_int (slider_value st)\<rparr>
      | Some v \<Rightarrow>
          let clamped_value = max (min_val st) (min (max_val st) v)
          in if v \<noteq> clamped_value
             then emit clamped_value ((slider_setValue clamped_value st)\<lparr>input_text := str_int clamped_value\<rparr>)
             else emit v st)"

section \<open>Round trips\<close>

text \<open>\<^verbatim>\<open>cmyk_to_rgb(*rgb_to_cmyk(r, g, b))\<close>\<close>

definition cmyk_roundtrip :: "int \<Rightarrow> int \<Rightarrow> int \<Rightarrow> int \<times> int \<times> int" where
  "cmyk_roundtrip r g b = (case rgb_to_cmyk r g b of (c, m, y, k) \<Rightarrow> cmyk_to_rgb c m y k)"

text \<open>
  \<^verbatim>\<open>hls_to_rgb(*rgb_to_hls(r, g, b))\<close>: the three components of the returned tuple are
  passed on by position.
\<close>

definition hls_roundtrip :: "int \<Rightarrow> int \<Rightarrow> int \<Rightarrow> py_error + int \<times> int \<times> int" where
  "hls_roundtrip r g b =
     (case rgb_to_hls r g b of Inl e \<Rightarrow> Inl e | Inr (x, y, z) \<Rightarrow> Inr (hls_to_rgb x y z))"

text \<open>Two triples that differ by at most \<open>n\<close> in every channel.\<close>

fun close_to :: "int \<Rightarrow> int \<times> int \<times> int \<Rightarrow> int \<times> int \<times> int \<Rightarrow> bool" where
  "close_to n (r, g, b) (r', g', b') = (\<bar>r' - r\<bar> \<le> n \<and> \<bar>g' - g\<bar> \<le> n \<and> \<bar>b' - b\<bar> \<le> n)"

text \<open>
  The integer core of the CMYK round trip near white, where the two roundings to whole
  percents add up: every maximum \<open>M\<close> from 245, the black percentages \<open>K\<close> and the
  channel percentages \<open>C\<close> that rounding can give, and the channel values \<open>x\<close> they
  belong to.
\<close>

definition cmyk_corner_ok :: "int \<Rightarrow> int \<Rightarrow> int \<Rightarrow> int \<Rightarrow> bool" where
  "cmyk_corner_ok M K C x =
     (if \<bar>2 * M * C - 200 * (M - x)\<bar> \<le> M
      then \<bar>51 * (100 - C) * (100 - K) - 2000 * x\<bar> < 5000 else True)"

definition cmyk_corner_check :: bool where
  "cmyk_corner_check =
     list_all (\<lambda>M. list_all (\<lambda>K.
         if \<bar>510 * K - 200 * (255 - M)\<bar> \<le> 255
         then list_all (\<lambda>C. list_all (cmyk_corner_ok M K C) [M - 8..M]) [0..3]
         else True) [0..4]) [245..255]"

section \<open>Properties of the float model\<close>

subsection \<open>Rounding to an integer\<close>

lemma py_round_error: "\<bar>of_int (py_round x) - x\<bar> \<le> 1 / 2"
proof -
  have "of_int \<lfloor>x\<rfloor> \<le> x" "x < of_int \<lfloor>x\<rfloor> + 1" by linarith+
  then show ?thesis
    unfolding py_round_def Let_def by (auto simp: abs_le_iff)
qed

lemma py_round_of_int: "py_round (of_int n) = n"
  by (simp add: py_round_def)

lemma py_round_unique:
  assumes "of_int n - 1 / 2 < x" "x < of_int n + 1 / 2"
  shows "py_round x = n"
proof -
  have "\<bar>of_int (py_round x) - x\<bar> \<le> 1 / 2" by (rule py_round_error)
  with assms have "of_int (py_round x) - (of_int n :: rat) < 1" "(of_int n :: rat) - of_int (py_round x) < 1"
    by linarith+
  then have "of_int (py_round x - n) < (1::rat)" "of_int (n - py_round x) < (1::rat)"
    by simp_all
  then have "py_round x - n < 1" "n - py_round x < 1"
    by (simp_all only: of_int_less_1_iff)
  then show ?thesis by linarith
qed

subsection \<open>Rounding to a double\<close>

lemma ilog2_bounds:
  assumes "0 < x"
  shows "2 powi ilog2 x \<le> x" and "x < 2 powi (ilog2 x + 1)"
proof -
  obtain a b where ab: "quotient_of x = (a, b)" by (cases "quotient_of x")
  then have b: "0 < b" and x: "x = of_int a / of_int b"
    using quotient_of_denom_pos quotient_of_div by blast+
  with assms have a: "0 < a"
    by (simp add: zero_less_divide_iff)
  define la lb where "la = bitlen a" and "lb = bitlen b"
  define d where "d = la - lb"
  have pos: "1 \<le> la" "1 \<le> lb"
    using a b by (auto simp: la_def lb_def bitlen_alt_def)
  have "2 ^ nat (la - 1) \<le> a" "a < 2 ^ nat la" "2 ^ nat (lb - 1) \<le> b" "b < 2 ^ nat lb"
    using bitlen_bounds [OF a] bitlen_bounds [OF b] by (simp_all add: la_def lb_def)
  then have "of_int (2 ^ nat (la - 1)) \<le> (of_int a :: rat)" "(of_int a :: rat) < of_int (2 ^ nat la)"
    "of_int (2 ^ nat (lb - 1)) \<le> (of_int b :: rat)" "(of_int b :: rat) < of_int (2 ^ nat lb)"
    by (simp_all only: of_int_le_iff of_int_less_iff)
  then have la: "2 powi (la - 1) \<le> (of_int a :: rat)" "(of_int a :: rat) < 2 powi la"
   and lb: "2 powi (lb - 1) \<le> (of_int b :: rat)" "(of_int b :: rat) < 2 powi lb"
    using pos by (simp_all add: power_int_def)
  have bq: "0 < (of_int b :: rat)" using b by simp
  have "(2::rat) powi (d + 1) * 2 powi (lb - 1) = 2 powi la"
    by (simp flip: power_int_add add: d_def)
  moreover have "(2::rat) powi (d + 1) * 2 powi (lb - 1) \<le> 2 powi (d + 1) * of_int b"
    by (rule mult_left_mono [OF lb(1)]) simp
  ultimately have "of_int a < (2::rat) powi (d + 1) * of_int b"
    using la(2) by linarith
  then have up: "x < 2 powi (d + 1)"
    using bq by (simp add: x pos_divide_less_eq)
  have "(2::rat) powi (d - 1) * 2 powi lb = 2 powi (la - 1)"
    by (simp flip: power_int_add add: d_def)
  moreover have "(2::rat) powi (d - 1) * of_int b < 2 powi (d - 1) * 2 powi lb"
    by (rule mult_strict_left_mono [OF lb(2)]) simp
  ultimately have "(2::rat) powi (d - 1) * of_int b < of_int a"
    using la(1) by linarith
  then have low: "2 powi (d - 1) < x"
    using bq by (simp add: x pos_less_divide_eq)
  have il: "ilog2 x = (if 2 powi d \<le> x then d else d - 1)"
    by (simp add: ilog2_def ab la_def lb_def d_def Let_def)
  show "2 powi ilog2 x \<le> x"
    using low by (simp add: il)
  show "x < 2 powi (ilog2 x + 1)"
    using up by (simp add: il)
qed

lemma fl_0: "fl 0 = 0"
  by (simp add: fl_def)

lemma fl_quantum_error:
  assumes "x \<noteq> 0"
  shows "\<bar>fl x - x\<bar> \<le> 2 powi (max (ilog2 \<bar>x\<bar>) (- 1022) - 52) / 2"
proof -
  define q :: rat where "q = 2 powi (max (ilog2 \<bar>x\<bar>) (- 1022) - 52)"
  have q: "0 < q" by (simp add: q_def)
  have "fl x - x = (of_int (py_round (x / q)) - x / q) * q"
    using assms q by (simp add: fl_def q_def Let_def algebra_simps)
  then have "\<bar>fl x - x\<bar> = \<bar>of_int (py_round (x / q)) - x / q\<bar> * q"
    using q by (simp add: abs_mult)
  also have "\<dots> \<le> (1 / 2) * q"
    by (rule mult_right_mono [OF py_round_error]) (use q in simp)
  finally show ?thesis by (simp add: q_def)
qed

lemma fl_abs_error:
  assumes "\<bar>x\<bar> \<le> B" "1 \<le> B"
  shows "\<bar>fl x - x\<bar> \<le> B / 2 ^ 53"
proof (cases "x = 0")
  case True
  with assms show ?thesis by (simp add: fl_0)
next
  case False
  define e where "e = ilog2 \<bar>x\<bar>"
  have e: "2 powi e \<le> \<bar>x\<bar>"
    unfolding e_def using False by (intro ilog2_bounds) simp
  have "(2::rat) powi (max e (- 1022) - 52) \<le> B / 2 ^ 52"
  proof (cases "- 1022 \<le> e")
    case True
    then have "(2::rat) powi (max e (- 1022) - 52) = 2 powi e / 2 ^ 52"
      by (simp add: max_def power_int_diff)
    also have "\<dots> \<le> B / 2 ^ 52"
      using e assms by (simp add: divide_right_mono)
    finally show ?thesis .
  next
    case False
    then have "(2::rat) powi (max e (- 1022) - 52) = 2 powi (- 1074)"
      by (simp add: max_def)
    also have "\<dots> \<le> 2 powi (- 52)"
      by (rule power_int_increasing) simp_all
    also have "\<dots> = 1 / 2 ^ 52"
      by (simp add: power_int_minus_divide)
    also have "\<dots> \<le> B / 2 ^ 52"
      using assms by (simp add: divide_right_mono)
    finally show ?thesis .
  qed
  with fl_quantum_error [OF False] show ?thesis
    by (simp add: e_def)
qed

lemma fl_dyadic:
  assumes n: "\<bar>n\<bar> < 2 ^ 53" and j: "j \<le> 1074"
  shows "fl (of_int n / 2 ^ j) = of_int n / 2 ^ j"
proof (cases "n = 0")
  case True
  then show ?thesis by (simp add: fl_0)
next
  case False
  define x :: rat where "x = of_int n / 2 ^ j"
  have x0: "x \<noteq> 0" using False by (simp add: x_def)
  define e where "e = ilog2 \<bar>x\<bar>"
  define E where "E = max e (- 1022)"
  have "2 powi e \<le> \<bar>x\<bar>"
    unfolding e_def using x0 by (intro ilog2_bounds) simp
  also have "\<bar>x\<bar> = of_int \<bar>n\<bar> / 2 ^ j"
    by (simp add: x_def)
  also have "\<dots> < 2 ^ 53 / 2 ^ j"
  proof -
    have "(of_int \<bar>n\<bar> :: rat) < of_int (2 ^ 53)"
      using n by (simp only: of_int_less_iff)
    then show ?thesis by (simp add: divide_strict_right_mono)
  qed
  also have "\<dots> = (2::rat) powi (53 - int j)"
    by (simp add: power_int_diff)
  finally have lt: "(2::rat) powi e < 2 powi (53 - int j)" .
  have "e < 53 - int j"
  proof (rule ccontr)
    assume "\<not> e < 53 - int j"
    then have "(2::rat) powi (53 - int j) \<le> 2 powi e"
      by (intro power_int_increasing) simp_all
    with lt show False by simp
  qed
  then have k: "0 \<le> 52 - E - int j"
    using j by (simp add: E_def)
  define k where "k = nat (52 - E - int j)"
  have q: "x / 2 powi (E - 52) = of_int (n * 2 ^ k)"
  proof -
    have "x / 2 powi (E - 52) = of_int n * (2 powi (52 - E) / 2 powi (int j))"
      by (simp add: x_def power_int_diff field_simps)
    also have "2 powi (52 - E) / 2 powi (int j) = (2::rat) powi (52 - E - int j)"
      by (simp add: power_int_diff)
    also have "\<dots> = 2 ^ k"
      using k by (simp add: k_def power_int_def)
    finally show ?thesis by simp
  qed
  have "fl x = of_int (py_round (x / 2 powi (E - 52))) * 2 powi (E - 52)"
    using x0 by (simp add: fl_def E_def e_def Let_def)
  also have "\<dots> = of_int n * (2 ^ k * 2 powi (E - 52))"
    by (simp only: q py_round_of_int) simp
  also have "2 ^ k * 2 powi (E - 52) = (2::rat) powi (int k + (E - 52))"
    by (simp add: power_int_add)
  also have "int k + (E - 52) = - int j"
    using k by (simp add: k_def)
  finally show ?thesis
    by (simp add: x_def power_int_minus_divide)
qed

lemma fl_int: "\<bar>n\<bar> < 2 ^ 53 \<Longrightarrow> fl (of_int n) = of_int n"
  using fl_dyadic [of n 0] by simp

lemma fl_consts:
  "fl 1 = 1" "fl 2 = 2" "fl 100 = 100" "fl 255 = 255" "fl (1 / 2) = 1 / 2" "fl (3 / 2) = 3 / 2"
  using fl_dyadic [of 1 0] fl_dyadic [of 2 0] fl_dyadic [of 100 0] fl_dyadic [of 255 0]
    fl_dyadic [of 1 1] fl_dyadic [of 3 1]
  by simp_all

lemma fl_err: "\<bar>z\<bar> \<le> 32768 \<Longrightarrow> \<bar>fl z - z\<bar> \<le> 1 / 2 ^ 38"
  using fl_abs_error [of z 32768] by simp

lemma norm255_err:
  assumes "0 \<le> x" "x \<le> 255"
  shows "\<bar>norm255 x - of_int x / 255\<bar> \<le> 1 / 2 ^ 38"
proof -
  have "norm255 x = fl (of_int x / 255)"
    using assms by (simp add: norm255_def fl_quot_def fl_of_int_def fl_int)
  moreover have "\<bar>(of_int x :: rat) / 255\<bar> \<le> 32768"
    using assms by simp
  ultimately show ?thesis
    using fl_err by simp
qed

lemma norm100_err:
  assumes "0 \<le> c" "c \<le> 100"
  shows "\<bar>norm100 c - of_int c / 100\<bar> \<le> 1 / 2 ^ 38"
proof -
  have "norm100 c = fl (of_int c / 100)"
    using assms by (simp add: norm100_def fl_quot_def fl_of_int_def fl_int)
  moreover have "\<bar>(of_int c :: rat) / 100\<bar> \<le> 32768"
    using assms by simp
  ultimately show ?thesis
    using fl_err by simp
qed

lemma quotient_err:
  fixes n d N D :: rat
  assumes n: "\<bar>n - N\<bar> \<le> en" and d: "\<bar>d - D\<bar> \<le> ed"
    and N: "0 \<le> N" "N \<le> D" and dm: "0 < dmin" "dmin \<le> d" and D: "0 < D"
  shows "\<bar>n / d - N / D\<bar> \<le> (en + ed) / dmin"
proof -
  have d0: "0 < d" using dm by linarith
  have en: "0 \<le> en" and ed: "0 \<le> ed" using n d by linarith+
  have eq: "n / d - N / D = ((n - N) * D - N * (d - D)) / (d * D)"
    using d0 D by (simp add: field_simps)
  have "\<bar>(n - N) * D - N * (d - D)\<bar> \<le> \<bar>(n - N) * D\<bar> + \<bar>N * (d - D)\<bar>"
    by (rule abs_triangle_ineq4)
  also have "\<dots> = \<bar>n - N\<bar> * D + N * \<bar>d - D\<bar>"
    using N D by (simp add: abs_mult)
  also have "\<dots> \<le> en * D + D * ed"
    using n d N D en ed by (intro add_mono mult_mono) simp_all
  finally have num: "\<bar>(n - N) * D - N * (d - D)\<bar> \<le> (en + ed) * D"
    by (simp add: algebra_simps)
  have "\<bar>n / d - N / D\<bar> = \<bar>(n - N) * D - N * (d - D)\<bar> / (d * D)"
    using d0 D by (simp add: eq abs_mult)
  also have "\<dots> \<le> ((en + ed) * D) / (d * D)"
    by (rule divide_right_mono [OF num]) (use d0 D in simp)
  also have "\<dots> = (en + ed) / d"
    using D by simp
  also have "\<dots> \<le> (en + ed) / dmin"
    using dm en ed by (simp add: frac_le)
  finally show ?thesis .
qed

lemma product_err:
  fixes a b A B :: rat
  assumes a: "\<bar>a - A\<bar> \<le> ea" and b: "\<bar>b - B\<bar> \<le> eb"
    and A: "\<bar>A\<bar> \<le> Am" and B: "\<bar>b\<bar> \<le> bm"
  shows "\<bar>a * b - A * B\<bar> \<le> ea * bm + Am * eb"
proof -
  have "a * b - A * B = (a - A) * b + A * (b - B)"
    by (simp add: algebra_simps)
  then have "\<bar>a * b - A * B\<bar> \<le> \<bar>a - A\<bar> * \<bar>b\<bar> + \<bar>A\<bar> * \<bar>b - B\<bar>"
    by (metis abs_mult abs_triangle_ineq)
  also have "\<dots> \<le> ea * bm + Am * eb"
    using assms by (intro add_mono mult_mono) (auto intro: order_trans [OF abs_ge_zero])
  finally show ?thesis .
qed

subsection \<open>Error bounds for \<^verbatim>\<open>rgb_to_cmyk\<close>\<close>

lemma cmyk_k_approx:
  assumes M: "0 \<le> M" "M \<le> 255" and mx: "\<bar>mx - of_int M / 255\<bar> \<le> 1 / 2 ^ 38"
  shows "\<bar>fl_sub 1 mx - (1 - of_int M / 255)\<bar> \<le> 2 / 2 ^ 38"
proof -
  have r: "0 \<le> (of_int M :: rat) / 255" "(of_int M :: rat) / 255 \<le> 1"
    using M by simp_all
  have "\<bar>1 - mx\<bar> \<le> 32768"
    using r mx unfolding abs_le_iff by simp
  from fl_err [OF this] mx show ?thesis
    unfolding fl_sub_def abs_le_iff by simp
qed

lemma cmyk_divisor_approx:
  assumes M: "0 \<le> M" "M \<le> 255" and mx: "\<bar>mx - of_int M / 255\<bar> \<le> 1 / 2 ^ 38"
  shows "\<bar>fl_sub 1 (fl_sub 1 mx) - of_int M / 255\<bar> \<le> 3 / 2 ^ 38"
proof -
  define k where "k = fl_sub 1 mx"
  have r: "0 \<le> (of_int M :: rat) / 255" "(of_int M :: rat) / 255 \<le> 1"
    using M by simp_all
  have k: "\<bar>k - (1 - of_int M / 255)\<bar> \<le> 2 / 2 ^ 38"
    unfolding k_def by (rule cmyk_k_approx [OF assms])
  have "\<bar>1 - k\<bar> \<le> 32768"
    using r k unfolding abs_le_iff by simp
  from fl_err [OF this] k have "\<bar>fl (1 - k) - of_int M / 255\<bar> \<le> 3 / 2 ^ 38"
    unfolding abs_le_iff by simp
  then show ?thesis
    by (simp add: k_def fl_sub_def [of 1 "fl_sub 1 mx"])
qed

lemma cmyk_channel_approx:
  assumes x: "0 \<le> x" "x \<le> M" and M: "1 \<le> M" "M \<le> 255"
    and xn: "\<bar>xn - of_int x / 255\<bar> \<le> 1 / 2 ^ 38"
    and mx: "\<bar>mx - of_int M / 255\<bar> \<le> 1 / 2 ^ 38"
  shows "\<bar>cmyk_channel xn (fl_sub 1 mx) - (of_int M - of_int x) / of_int M\<bar> \<le> 2049 / 2 ^ 38"
proof -
  define k where "k = fl_sub 1 mx"
  define d where "d = fl_sub 1 k"
  define t where "t = fl_sub 1 xn"
  define n where "n = fl_sub t k"
  define X :: rat where "X = of_int x / 255"
  define N :: rat where "N = (of_int M - of_int x) / 255"
  define D :: rat where "D = of_int M / 255"
  have M0: "0 \<le> M" using M by simp
  have rx: "0 \<le> X" "X \<le> 1"
    using x M by (simp_all add: X_def)
  have rM: "1 / 255 \<le> D" "D \<le> 1"
    using M by (simp_all add: D_def)
  have N: "0 \<le> N" "N \<le> D"
    using x by (simp_all add: N_def D_def divide_right_mono)
  have XN: "1 - X - (1 - D) = N"
    by (simp add: N_def D_def X_def diff_divide_distrib)
  have k: "\<bar>k - (1 - D)\<bar> \<le> 2 / 2 ^ 38"
    unfolding k_def D_def by (rule cmyk_k_approx [OF M0 M(2) mx])
  have d: "\<bar>d - D\<bar> \<le> 3 / 2 ^ 38"
    unfolding d_def k_def D_def by (rule cmyk_divisor_approx [OF M0 M(2) mx])
  have dmin: "1 / 256 \<le> d"
    using d rM unfolding abs_le_iff by simp
  have xn': "\<bar>xn - X\<bar> \<le> 1 / 2 ^ 38"
    using xn by (simp add: X_def)
  have "\<bar>1 - xn\<bar> \<le> 32768"
    using rx xn' unfolding abs_le_iff by simp
  from fl_err [OF this] xn' have t: "\<bar>t - (1 - X)\<bar> \<le> 2 / 2 ^ 38"
    unfolding t_def fl_sub_def abs_le_iff by simp
  have "\<bar>t - k\<bar> \<le> 32768"
    using t k rx rM unfolding abs_le_iff by simp
  from fl_err [OF this] have "\<bar>n - (t - k)\<bar> \<le> 1 / 2 ^ 38"
    by (simp add: n_def fl_sub_def)
  with t k have "\<bar>n - (1 - X - (1 - D))\<bar> \<le> 5 / 2 ^ 38"
    unfolding abs_le_iff by simp
  then have n: "\<bar>n - N\<bar> \<le> 5 / 2 ^ 38"
    by (simp only: XN)
  define qv where "qv = n / d"
  define Y where "Y = N / D"
  have "\<bar>n / d - N / D\<bar> \<le> (5 / 2 ^ 38 + 3 / 2 ^ 38) / (1 / 256)"
    by (rule quotient_err [OF n d N _ dmin]) (use rM in simp_all)
  then have q: "\<bar>qv - Y\<bar> \<le> 2048 / 2 ^ 38"
    by (simp add: qv_def Y_def)
  have "(a / 255) / (b / 255) = a / b" for a b :: rat
    by simp
  then have ND: "Y = (of_int M - of_int x) / of_int M"
    by (simp only: N_def D_def Y_def)
  have ND1: "0 \<le> Y" "Y \<le> 1"
    using N rM by (simp_all add: Y_def)
  have "\<bar>qv\<bar> \<le> 32768"
    using q ND1 unfolding abs_le_iff by simp
  from fl_err [OF this] q have "\<bar>fl qv - Y\<bar> \<le> 2049 / 2 ^ 38"
    unfolding abs_le_iff by simp
  moreover have "d \<noteq> 0" using dmin by auto
  ultimately show ?thesis
    by (simp add: cmyk_channel_def cmyk_divisor_def fl_quot_def
        flip: ND k_def d_def t_def n_def qv_def)
qed

lemma percent_approx:
  assumes c: "\<bar>c - Y\<bar> \<le> 2049 / 2 ^ 38" and Y: "0 \<le> Y" "Y \<le> 1"
  shows "\<bar>fl_mul c 100 - 100 * Y\<bar> \<le> 1 / 2 ^ 20"
proof -
  have "\<bar>c * 100\<bar> \<le> 32768"
    using c Y unfolding abs_le_iff by simp
  from fl_err [OF this] c show ?thesis
    unfolding fl_mul_def abs_le_iff by simp
qed

lemma cmyk_percent_ok:
  assumes x: "0 \<le> x" "x \<le> M" and M: "1 \<le> M" "M \<le> 255"
    and xn: "\<bar>xn - of_int x / 255\<bar> \<le> 1 / 2 ^ 38"
    and mx: "\<bar>mx - of_int M / 255\<bar> \<le> 1 / 2 ^ 38"
  shows "\<bar>2 * M * py_round (fl_mul (cmyk_channel xn (fl_sub 1 mx)) 100) - 200 * (M - x)\<bar> \<le> M"
proof -
  define p where "p = fl_mul (cmyk_channel xn (fl_sub 1 mx)) 100"
  define C where "C = py_round p"
  define Mq :: rat where "Mq = of_int M"
  define xq :: rat where "xq = of_int x"
  define Y :: rat where "Y = (Mq - xq) / Mq"
  have Mq: "1 \<le> Mq" "Mq \<le> 255" and xq: "0 \<le> xq" "xq \<le> Mq"
    using x M by (simp_all add: Mq_def xq_def)
  have Y: "0 \<le> Y" "Y \<le> 1"
    using Mq xq by (simp_all add: Y_def)
  have "\<bar>cmyk_channel xn (fl_sub 1 mx) - Y\<bar> \<le> 2049 / 2 ^ 38"
    unfolding Y_def Mq_def xq_def by (rule cmyk_channel_approx [OF x M xn mx])
  from percent_approx [OF this Y] have p: "\<bar>p - 100 * Y\<bar> \<le> 1 / 2 ^ 20"
    by (simp add: p_def)
  have "\<bar>of_int C - p\<bar> \<le> 1 / 2"
    unfolding C_def by (rule py_round_error)
  with p have "\<bar>of_int C - 100 * Y\<bar> \<le> 1 / 2 + 1 / 2 ^ 20"
    unfolding abs_le_iff by simp
  then have "\<bar>of_int C - 100 * Y\<bar> * Mq \<le> (1 / 2 + 1 / 2 ^ 20) * Mq"
    by (rule mult_right_mono) (use Mq in simp)
  moreover have "Y * Mq = Mq - xq"
    using Mq by (simp add: Y_def)
  then have e: "(of_int C - 100 * Y) * Mq = of_int C * Mq - 100 * (Mq - xq)"
    by (simp add: left_diff_distrib)
  have "\<bar>of_int C - 100 * Y\<bar> * Mq = \<bar>(of_int C - 100 * Y) * Mq\<bar>"
    using Mq by (simp add: abs_mult)
  then have "\<bar>of_int C - 100 * Y\<bar> * Mq = \<bar>of_int C * Mq - 100 * (Mq - xq)\<bar>"
    by (simp only: e)
  ultimately have "\<bar>of_int C * Mq - 100 * (Mq - xq)\<bar> \<le> (1 / 2 + 1 / 2 ^ 20) * Mq"
    by simp
  with Mq have "\<bar>2 * Mq * of_int C - 200 * (Mq - xq)\<bar> < Mq + 1"
    unfolding abs_less_iff abs_le_iff by (simp add: algebra_simps)
  then have "(of_int \<bar>2 * M * C - 200 * (M - x)\<bar> :: rat) < of_int (M + 1)"
    by (simp add: Mq_def xq_def)
  then have "\<bar>2 * M * C - 200 * (M - x)\<bar> < M + 1"
    by (simp only: of_int_less_iff)
  then show ?thesis
    by (simp add: C_def p_def)
qed

lemma cmyk_black_ok:
  assumes M: "0 \<le> M" "M \<le> 255"
    and mx: "\<bar>mx - of_int M / 255\<bar> \<le> 1 / 2 ^ 38"
  shows "\<bar>510 * py_round (fl_mul (fl_sub 1 mx) 100) - 200 * (255 - M)\<bar> \<le> 255"
proof -
  define k where "k = fl_sub 1 mx"
  define K where "K = py_round (fl_mul k 100)"
  define Mq :: rat where "Mq = of_int M"
  have Mq: "0 \<le> Mq" "Mq \<le> 255"
    using M by (simp_all add: Mq_def)
  have k: "\<bar>k - (1 - Mq / 255)\<bar> \<le> 2 / 2 ^ 38"
    unfolding k_def Mq_def by (rule cmyk_k_approx [OF M mx])
  have "\<bar>k * 100\<bar> \<le> 32768"
    using k Mq unfolding abs_le_iff by simp
  from fl_err [OF this] k have "\<bar>fl_mul k 100 - 100 * (1 - Mq / 255)\<bar> \<le> 201 / 2 ^ 38"
    unfolding fl_mul_def abs_le_iff by simp
  moreover have "\<bar>of_int K - fl_mul k 100\<bar> \<le> 1 / 2"
    unfolding K_def by (rule py_round_error)
  ultimately have "\<bar>510 * of_int K - 200 * (255 - Mq)\<bar> < 256"
    unfolding abs_le_iff abs_less_iff by simp
  then have "(of_int \<bar>510 * K - 200 * (255 - M)\<bar> :: rat) < of_int 256"
    by (simp add: Mq_def)
  then have "\<bar>510 * K - 200 * (255 - M)\<bar> < 256"
    by (simp only: of_int_less_iff)
  then show ?thesis
    by (simp add: K_def k_def)
qed

subsection \<open>Error bounds for \<^verbatim>\<open>cmyk_to_rgb\<close>\<close>

lemma complement_approx:
  assumes c: "0 \<le> c" "c \<le> 100"
  shows "\<bar>fl_sub 1 (norm100 c) - (1 - of_int c / 100)\<bar> \<le> 2 / 2 ^ 38"
proof -
  have r: "0 \<le> (of_int c :: rat) / 100" "(of_int c :: rat) / 100 \<le> 1"
    using c by simp_all
  note cn = norm100_err [OF c]
  have "\<bar>1 - norm100 c\<bar> \<le> 32768"
    using r cn unfolding abs_le_iff by simp
  from fl_err [OF this] cn show ?thesis
    unfolding fl_sub_def abs_le_iff by simp
qed

lemma cmyk_back_ok:
  assumes C: "0 \<le> C" "C \<le> 100" and K: "0 \<le> K" "K \<le> 100"
  shows "\<bar>2000 * py_round (fl_mul (fl_mul 255 (fl_sub 1 (norm100 C))) (fl_sub 1 (norm100 K)))
           - 51 * (100 - C) * (100 - K)\<bar> \<le> 1000"
proof -
  define a where "a = fl_sub 1 (norm100 C)"
  define g where "g = fl_sub 1 (norm100 K)"
  define b where "b = fl_mul 255 a"
  define v where "v = fl_mul b g"
  define R where "R = py_round v"
  define A :: rat where "A = 1 - of_int C / 100"
  define G :: rat where "G = 1 - of_int K / 100"
  define B :: rat where "B = 255 * A"
  define W :: rat where "W = B * G"
  define w :: rat where "w = b * g"
  have A: "0 \<le> A" "A \<le> 1" and G: "0 \<le> G" "G \<le> 1"
    using C K by (simp_all add: A_def G_def)
  have B: "0 \<le> B" "B \<le> 255"
    using A by (simp_all add: B_def)
  have a: "\<bar>a - A\<bar> \<le> 2 / 2 ^ 38"
    unfolding a_def A_def by (rule complement_approx [OF C])
  have g: "\<bar>g - G\<bar> \<le> 2 / 2 ^ 38"
    unfolding g_def G_def by (rule complement_approx [OF K])
  have "\<bar>255 * a\<bar> \<le> 32768"
    using a A unfolding abs_le_iff by simp
  from fl_err [OF this] a have b: "\<bar>b - B\<bar> \<le> 511 / 2 ^ 38"
    unfolding b_def B_def fl_mul_def abs_le_iff by simp
  have g2: "\<bar>g\<bar> \<le> 2"
    using g G unfolding abs_le_iff by simp
  have B2: "\<bar>B\<bar> \<le> 255"
    using B by simp
  have "\<bar>b * g - B * G\<bar> \<le> 511 / 2 ^ 38 * 2 + 255 * (2 / 2 ^ 38)"
    by (rule product_err [OF b g B2 g2])
  then have w: "\<bar>w - W\<bar> \<le> 1532 / 2 ^ 38"
    by (simp add: w_def W_def)
  have W: "0 \<le> W" "W \<le> 255"
  proof -
    show "0 \<le> W" using B G by (simp add: W_def)
    have "B * G \<le> 255 * 1"
      using B G by (intro mult_mono) simp_all
    then show "W \<le> 255" by (simp add: W_def)
  qed
  have "\<bar>w\<bar> \<le> 32768"
    using w W unfolding abs_le_iff by simp
  from fl_err [OF this] w have v: "\<bar>v - W\<bar> \<le> 1533 / 2 ^ 38"
    unfolding v_def fl_mul_def w_def [symmetric] abs_le_iff by simp
  have "\<bar>of_int R - v\<bar> \<le> 1 / 2"
    unfolding R_def by (rule py_round_error)
  with v have "\<bar>2000 * of_int R - 2000 * W\<bar> < 1001"
    unfolding abs_le_iff abs_less_iff by simp
  moreover have "2000 * W = of_int (51 * (100 - C) * (100 - K))"
  proof -
    have "2000 * (255 * (p / 100) * (q / 100)) = 51 * p * q" for p q :: rat
      by simp
    moreover have "1 - (of_int n :: rat) / 100 = (100 - of_int n) / 100" for n :: int
      by (simp add: diff_divide_distrib)
    ultimately show ?thesis
      by (simp only: W_def B_def A_def G_def of_int_mult of_int_diff of_int_numeral)
  qed
  ultimately have "(of_int \<bar>2000 * R - 51 * (100 - C) * (100 - K)\<bar> :: rat) < of_int 1001"
    by simp
  then have "\<bar>2000 * R - 51 * (100 - C) * (100 - K)\<bar> < 1001"
    by (simp only: of_int_less_iff)
  then show ?thesis
    by (simp add: R_def v_def b_def a_def g_def)
qed

subsection \<open>The integer core of the CMYK round trip\<close>

lemma cmyk_corner_checked: "cmyk_corner_check"
  by code_simp


lemma cmyk_corner:
  fixes M K C x :: int
  assumes "245 \<le> M" "M \<le> 255" "0 \<le> K" "K \<le> 4" "0 \<le> C" "C \<le> 3" "M - 8 \<le> x" "x \<le> M"
    and "\<bar>510 * K - 200 * (255 - M)\<bar> \<le> 255" and "\<bar>2 * M * C - 200 * (M - x)\<bar> \<le> M"
  shows "\<bar>51 * (100 - C) * (100 - K) - 2000 * x\<bar> < 5000"
proof -
  have "M \<in> {245..255}" "K \<in> {0..4}" "C \<in> {0..3}" "x \<in> {M - 8..M}"
    using assms by simp_all
  with cmyk_corner_checked assms(9) have "cmyk_corner_ok M K C x"
    unfolding cmyk_corner_check_def list_all_iff set_upto by (auto split: if_splits)
  with assms(10) show ?thesis
    by (simp add: cmyk_corner_ok_def)
qed

lemma cmyk_int_bound:
  fixes M K C x :: int
  assumes M: "1 \<le> M" "M \<le> 255" and x: "0 \<le> x" "x \<le> M"
    and okC: "\<bar>2 * M * C - 200 * (M - x)\<bar> \<le> M"
    and okK: "\<bar>510 * K - 200 * (255 - M)\<bar> \<le> 255"
  shows "\<bar>51 * (100 - C) * (100 - K) - 2000 * x\<bar> < 5000"
proof -
  define mc where "mc = M * C"
  have okC': "\<bar>2 * mc - 200 * (M - x)\<bar> \<le> M"
    using okC by (simp add: mc_def mult.assoc)
  have C0: "0 \<le> C"
  proof (rule ccontr)
    assume "\<not> 0 \<le> C"
    then have "M * C \<le> M * (- 1)"
      using M by (intro mult_left_mono) simp_all
    with okC' M x show False
      unfolding abs_le_iff mc_def by simp
  qed
  have C100: "C \<le> 100"
  proof (rule ccontr)
    assume "\<not> C \<le> 100"
    then have "M * 101 \<le> M * C"
      using M by (intro mult_left_mono) simp_all
    with okC' M x show False
      unfolding abs_le_iff mc_def by simp
  qed
  have K0: "0 \<le> K" and K100: "K \<le> 100"
    using okK M unfolding abs_le_iff by simp_all
  define a where "a = 100 - C"
  define t where "t = 510 * (100 - K) - 200 * M"
  define s where "s = 2 * M * a - 200 * x"
  define P where "P = 51 * a * (100 - K)"
  define atv where "atv = a * t"
  have a: "0 \<le> a" "a \<le> 100"
    using C0 C100 by (simp_all add: a_def)
  have t: "\<bar>t\<bar> \<le> 255"
    using okK unfolding t_def abs_le_iff by simp
  have s: "\<bar>s\<bar> \<le> M"
    using okC' unfolding s_def a_def mc_def abs_le_iff by (simp add: algebra_simps)
  have id: "10 * (P - 2000 * x) = atv + 100 * s"
    by (simp add: P_def atv_def t_def s_def algebra_simps)
  have "a * t \<le> a * 255"
    by (rule mult_left_mono) (use a t in auto)
  moreover have "a * (- 255) \<le> a * t"
    by (rule mult_left_mono) (use a t in auto)
  ultimately have at: "\<bar>atv\<bar> \<le> 255 * a"
    unfolding atv_def abs_le_iff by simp
  show ?thesis
  proof (cases "255 * a + 100 * M < 50000")
    case True
    with at s id have "\<bar>P - 2000 * x\<bar> < 5000"
      unfolding abs_le_iff abs_less_iff by simp
    then show ?thesis
      by (simp add: P_def a_def)
  next
    case False
    with a M have M245: "245 \<le> M" and C3: "C \<le> 3"
      by (simp_all add: a_def)
    have "M * C \<le> 255 * 3"
      using M C0 C3 by (intro mult_mono) simp_all
    with okC' M have x8: "M - 8 \<le> x"
      unfolding abs_le_iff mc_def by simp
    have K4: "K \<le> 4"
      using okK M245 unfolding abs_le_iff by simp
    show ?thesis
      by (rule cmyk_corner [OF M245 M(2) K0 K4 C0 C3 x8 x(2) okK okC])
  qed
qed

subsection \<open>The CMYK round trip, channel by channel\<close>

lemma max_approx:
  fixes a b A B e :: rat
  assumes "\<bar>a - A\<bar> \<le> e" "\<bar>b - B\<bar> \<le> e"
  shows "\<bar>max a b - max A B\<bar> \<le> e"
  using assms unfolding abs_le_iff max_def by auto

lemma max3_approx:
  fixes a b c :: rat and r g bb :: int
  assumes "\<bar>a - of_int r / 255\<bar> \<le> e" "\<bar>b - of_int g / 255\<bar> \<le> e" "\<bar>c - of_int bb / 255\<bar> \<le> e"
  shows "\<bar>max (max a b) c - of_int (max (max r g) bb) / 255\<bar> \<le> e"
proof -
  have m: "(of_int (max i j) :: rat) / 255 = max (of_int i / 255) (of_int j / 255)" for i j :: int
    by (simp add: max_def)
  show ?thesis
    unfolding m by (intro max_approx assms)
qed

lemma cmyk_percent_range:
  fixes M C x :: int
  assumes M: "1 \<le> M" and x: "0 \<le> x" "x \<le> M"
    and okC: "\<bar>2 * M * C - 200 * (M - x)\<bar> \<le> M"
  shows "0 \<le> C" and "C \<le> 100"
proof -
  have okC': "\<bar>2 * (M * C) - 200 * (M - x)\<bar> \<le> M"
    using okC by (simp add: mult.assoc)
  show "0 \<le> C"
  proof (rule ccontr)
    assume "\<not> 0 \<le> C"
    then have "M * C \<le> M * (- 1)"
      using M by (intro mult_left_mono) simp_all
    with okC' M x show False
      unfolding abs_le_iff by simp
  qed
  show "C \<le> 100"
  proof (rule ccontr)
    assume "\<not> C \<le> 100"
    then have "M * 101 \<le> M * C"
      using M by (intro mult_left_mono) simp_all
    with okC' M x show False
      unfolding abs_le_iff by simp
  qed
qed

lemma cmyk_channel_roundtrip:
  assumes x: "0 \<le> x" "x \<le> M" and M: "1 \<le> M" "M \<le> 255"
    and xn: "\<bar>xn - of_int x / 255\<bar> \<le> 1 / 2 ^ 38"
    and mx: "\<bar>mx - of_int M / 255\<bar> \<le> 1 / 2 ^ 38"
  shows "\<bar>to_channel (fl_mul (fl_mul 255 (fl_sub 1 (norm100 (py_round (fl_mul (cmyk_channel xn (fl_sub 1 mx)) 100)))))
            (fl_sub 1 (norm100 (py_round (fl_mul (fl_sub 1 mx) 100))))) - x\<bar> \<le> 2"
proof -
  define C where "C = py_round (fl_mul (cmyk_channel xn (fl_sub 1 mx)) 100)"
  define K where "K = py_round (fl_mul (fl_sub 1 mx) 100)"
  define R where "R = py_round (fl_mul (fl_mul 255 (fl_sub 1 (norm100 C))) (fl_sub 1 (norm100 K)))"
  define P where "P = 51 * (100 - C) * (100 - K)"
  have M0: "0 \<le> M" using M by simp
  have okC: "\<bar>2 * M * C - 200 * (M - x)\<bar> \<le> M"
    unfolding C_def by (rule cmyk_percent_ok [OF x M xn mx])
  have okK: "\<bar>510 * K - 200 * (255 - M)\<bar> \<le> 255"
    unfolding K_def by (rule cmyk_black_ok [OF M0 M(2) mx])
  have C: "0 \<le> C" "C \<le> 100"
    using cmyk_percent_range [OF M(1) x okC] by simp_all
  have K: "0 \<le> K" "K \<le> 100"
    using okK M unfolding abs_le_iff by simp_all
  have "\<bar>2000 * R - P\<bar> \<le> 1000"
    unfolding R_def P_def by (rule cmyk_back_ok [OF C K])
  moreover have "\<bar>P - 2000 * x\<bar> < 5000"
    unfolding P_def by (rule cmyk_int_bound [OF M x okC okK])
  ultimately have "\<bar>R - x\<bar> \<le> 2"
    unfolding abs_le_iff abs_less_iff by simp
  with x M have "\<bar>max 0 (min 255 R) - x\<bar> \<le> 2"
    by linarith
  then show ?thesis
    by (simp add: to_channel_def R_def C_def K_def)
qed

lemma cmyk_roundtrip_black: "cmyk_roundtrip 0 0 0 = (0, 0, 0)"
proof -
  have "\<bar>2000 * py_round (fl_mul (fl_mul 255 (fl_sub 1 (norm100 0))) (fl_sub 1 (norm100 100)))
           - 51 * (100 - 0) * (100 - 100)\<bar> \<le> 1000"
    by (rule cmyk_back_ok) simp_all
  then have "py_round (fl_mul (fl_mul 255 (fl_sub 1 (norm100 0))) (fl_sub 1 (norm100 100))) = 0"
    by simp
  then show ?thesis
    by (simp add: cmyk_roundtrip_def rgb_to_cmyk_def cmyk_to_rgb_def to_channel_def)
qed

lemma cmyk_roundtrip_close:
  assumes r: "0 \<le> r" "r \<le> 255" and g: "0 \<le> g" "g \<le> 255" and b: "0 \<le> b" "b \<le> 255"
  shows "close_to 2 (r, g, b) (cmyk_roundtrip r g b)"
proof (cases "r = 0 \<and> g = 0 \<and> b = 0")
  case True
  then show ?thesis by (simp add: cmyk_roundtrip_black)
next
  case False
  define M where "M = max (max r g) b"
  define mx where "mx = max (max (norm255 r) (norm255 g)) (norm255 b)"
  have M: "1 \<le> M" "M \<le> 255"
    using False r g b by (auto simp: M_def)
  have le: "r \<le> M" "g \<le> M" "b \<le> M"
    by (simp_all add: M_def)
  note rn = norm255_err [OF r] and gn = norm255_err [OF g] and bn = norm255_err [OF b]
  have mx: "\<bar>mx - of_int M / 255\<bar> \<le> 1 / 2 ^ 38"
    unfolding mx_def M_def by (rule max3_approx [OF rn gn bn])
  note cr = cmyk_channel_roundtrip [OF r(1) le(1) M rn mx]
    and cg = cmyk_channel_roundtrip [OF g(1) le(2) M gn mx]
    and cb = cmyk_channel_roundtrip [OF b(1) le(3) M bn mx]
  have nb: "(r = 0 \<and> g = 0 \<and> b = 0) = False"
    using False by simp
  have "cmyk_roundtrip r g b =
    (to_channel (fl_mul (fl_mul 255 (fl_sub 1 (norm100 (py_round (fl_mul (cmyk_channel (norm255 r) (fl_sub 1 mx)) 100)))))
        (fl_sub 1 (norm100 (py_round (fl_mul (fl_sub 1 mx) 100))))),
     to_channel (fl_mul (fl_mul 255 (fl_sub 1 (norm100 (py_round (fl_mul (cmyk_channel (norm255 g) (fl_sub 1 mx)) 100)))))
        (fl_sub 1 (norm100 (py_round (fl_mul (fl_sub 1 mx) 100))))),
     to_channel (fl_mul (fl_mul 255 (fl_sub 1 (norm100 (py_round (fl_mul (cmyk_channel (norm255 b) (fl_sub 1 mx)) 100)))))
        (fl_sub 1 (norm100 (py_round (fl_mul (fl_sub 1 mx) 100))))))"
    by (simp only: cmyk_roundtrip_def rgb_to_cmyk_def cmyk_to_rgb_def cmyk_k_def Let_def mx_def nb
        if_False prod.case)
  with cr cg cb show ?thesis
    by simp
qed

subsection \<open>What the two CMYK conversions return\<close>

lemma rgb_to_cmyk_percents:
  assumes r: "0 \<le> r" "r \<le> 255" and g: "0 \<le> g" "g \<le> 255" and b: "0 \<le> b" "b \<le> 255"
    and nb: "\<not> (r = 0 \<and> g = 0 \<and> b = 0)"
    and M: "M = max (max r g) b"
    and eq: "rgb_to_cmyk r g b = (c, m, y, k)"
  shows "\<bar>2 * M * c - 200 * (M - r)\<bar> \<le> M"
    and "\<bar>2 * M * m - 200 * (M - g)\<bar> \<le> M"
    and "\<bar>2 * M * y - 200 * (M - b)\<bar> \<le> M"
    and "\<bar>510 * k - 200 * (255 - M)\<bar> \<le> 255"
proof -
  define mx where "mx = max (max (norm255 r) (norm255 g)) (norm255 b)"
  have M1: "1 \<le> M" "M \<le> 255" and M0: "0 \<le> M"
    using nb r g b by (auto simp: M)
  have le: "r \<le> M" "g \<le> M" "b \<le> M"
    by (simp_all add: M)
  note rn = norm255_err [OF r] and gn = norm255_err [OF g] and bn = norm255_err [OF b]
  have mx: "\<bar>mx - of_int M / 255\<bar> \<le> 1 / 2 ^ 38"
    unfolding mx_def M by (rule max3_approx [OF rn gn bn])
  have nb': "(r = 0 \<and> g = 0 \<and> b = 0) = False"
    using nb by simp
  have "rgb_to_cmyk r g b =
    (py_round (fl_mul (cmyk_channel (norm255 r) (fl_sub 1 mx)) 100),
     py_round (fl_mul (cmyk_channel (norm255 g) (fl_sub 1 mx)) 100),
     py_round (fl_mul (cmyk_channel (norm255 b) (fl_sub 1 mx)) 100),
     py_round (fl_mul (fl_sub 1 mx) 100))"
    by (simp only: rgb_to_cmyk_def cmyk_k_def Let_def mx_def nb' if_False)
  with eq have c: "c = py_round (fl_mul (cmyk_channel (norm255 r) (fl_sub 1 mx)) 100)"
    and m: "m = py_round (fl_mul (cmyk_channel (norm255 g) (fl_sub 1 mx)) 100)"
    and y: "y = py_round (fl_mul (cmyk_channel (norm255 b) (fl_sub 1 mx)) 100)"
    and k: "k = py_round (fl_mul (fl_sub 1 mx) 100)"
    by simp_all
  show "\<bar>2 * M * c - 200 * (M - r)\<bar> \<le> M"
    unfolding c by (rule cmyk_percent_ok [OF r(1) le(1) M1 rn mx])
  show "\<bar>2 * M * m - 200 * (M - g)\<bar> \<le> M"
    unfolding m by (rule cmyk_percent_ok [OF g(1) le(2) M1 gn mx])
  show "\<bar>2 * M * y - 200 * (M - b)\<bar> \<le> M"
    unfolding y by (rule cmyk_percent_ok [OF b(1) le(3) M1 bn mx])
  show "\<bar>510 * k - 200 * (255 - M)\<bar> \<le> 255"
    unfolding k by (rule cmyk_black_ok [OF M0 M1(2) mx])
qed

lemma to_channel_back:
  assumes C: "0 \<le> C" "C \<le> 100" and K: "0 \<le> K" "K \<le> 100"
    and v: "v = to_channel (fl_mul (fl_mul 255 (fl_sub 1 (norm100 C))) (fl_sub 1 (norm100 K)))"
  shows "\<bar>2000 * v - 51 * (100 - C) * (100 - K)\<bar> \<le> 1000"
proof -
  define R where "R = py_round (fl_mul (fl_mul 255 (fl_sub 1 (norm100 C))) (fl_sub 1 (norm100 K)))"
  define P where "P = (100 - C) * (100 - K)"
  have P51: "51 * (100 - C) * (100 - K) = 51 * P"
    by (simp only: P_def mult.assoc)
  have "0 \<le> P"
    using C K by (simp add: P_def)
  moreover have "(100 - C) * (100 - K) \<le> 100 * 100"
    using C K by (intro mult_mono) simp_all
  moreover have "\<bar>2000 * R - 51 * P\<bar> \<le> 1000"
    using cmyk_back_ok [OF C K] by (simp only: R_def P51)
  ultimately have "0 \<le> R" "R \<le> 255" and R: "\<bar>2000 * R - 51 * P\<bar> \<le> 1000"
    unfolding abs_le_iff P_def [symmetric] by simp_all
  then have "v = R"
    by (simp add: v to_channel_def R_def)
  with R show ?thesis
    by (simp only: P51)
qed

lemma cmyk_to_rgb_channels:
  assumes c: "0 \<le> c" "c \<le> 100" and m: "0 \<le> m" "m \<le> 100"
    and y: "0 \<le> y" "y \<le> 100" and k: "0 \<le> k" "k \<le> 100"
    and eq: "cmyk_to_rgb c m y k = (r, g, b)"
  shows "\<bar>2000 * r - 51 * (100 - c) * (100 - k)\<bar> \<le> 1000"
    and "\<bar>2000 * g - 51 * (100 - m) * (100 - k)\<bar> \<le> 1000"
    and "\<bar>2000 * b - 51 * (100 - y) * (100 - k)\<bar> \<le> 1000"
proof -
  from eq have r: "r = to_channel (fl_mul (fl_mul 255 (fl_sub 1 (norm100 c))) (fl_sub 1 (norm100 k)))"
    and g: "g = to_channel (fl_mul (fl_mul 255 (fl_sub 1 (norm100 m))) (fl_sub 1 (norm100 k)))"
    and b: "b = to_channel (fl_mul (fl_mul 255 (fl_sub 1 (norm100 y))) (fl_sub 1 (norm100 k)))"
    by (simp_all add: cmyk_to_rgb_def Let_def)
  show "\<bar>2000 * r - 51 * (100 - c) * (100 - k)\<bar> \<le> 1000"
    by (rule to_channel_back [OF c k r])
  show "\<bar>2000 * g - 51 * (100 - m) * (100 - k)\<bar> \<le> 1000"
    by (rule to_channel_back [OF m k g])
  show "\<bar>2000 * b - 51 * (100 - y) * (100 - k)\<bar> \<le> 1000"
    by (rule to_channel_back [OF y k b])
qed

lemma rgb_to_cmyk_253_254_254: "rgb_to_cmyk 253 254 254 = (0, 0, 0, 0)"
proof -
  obtain c m y k where eq: "rgb_to_cmyk 253 254 254 = (c, m, y, k)"
    by (cases "rgb_to_cmyk 253 254 254") auto
  have M: "(254::int) = max (max 253 254) 254" by simp
  from rgb_to_cmyk_percents [OF _ _ _ _ _ _ _ M eq]
  have "\<bar>2 * 254 * c - 200 * (254 - 253)\<bar> \<le> 254" "\<bar>2 * 254 * m - 200 * (254 - 254)\<bar> \<le> 254"
    "\<bar>2 * 254 * y - 200 * (254 - 254)\<bar> \<le> 254" "\<bar>510 * k - 200 * (255 - 254)\<bar> \<le> 255"
    by simp_all
  then have "c = 0" "m = 0" "y = 0" "k = 0"
    by simp_all
  with eq show ?thesis by simp
qed

lemma cmyk_to_rgb_white: "cmyk_to_rgb 0 0 0 0 = (255, 255, 255)"
proof -
  obtain r g b where eq: "cmyk_to_rgb 0 0 0 0 = (r, g, b)"
    by (cases "cmyk_to_rgb 0 0 0 0") auto
  from cmyk_to_rgb_channels [OF _ _ _ _ _ _ _ _ eq]
  have "\<bar>2000 * r - 51 * (100 - 0) * (100 - 0)\<bar> \<le> 1000" "\<bar>2000 * g - 51 * (100 - 0) * (100 - 0)\<bar> \<le> 1000"
    "\<bar>2000 * b - 51 * (100 - 0) * (100 - 0)\<bar> \<le> 1000"
    by simp_all
  then have "r = 255" "g = 255" "b = 255"
    by simp_all
  with eq show ?thesis by simp
qed

lemma rgb_to_cmyk_1_1_1: "rgb_to_cmyk 1 1 1 = (0, 0, 0, 100)"
proof -
  obtain c m y k where eq: "rgb_to_cmyk 1 1 1 = (c, m, y, k)"
    by (cases "rgb_to_cmyk 1 1 1") auto
  have M: "(1::int) = max (max 1 1) 1" by simp
  from rgb_to_cmyk_percents [OF _ _ _ _ _ _ _ M eq]
  have "\<bar>2 * 1 * c - 200 * (1 - 1)\<bar> \<le> 1" "\<bar>2 * 1 * m - 200 * (1 - 1)\<bar> \<le> 1"
    "\<bar>2 * 1 * y - 200 * (1 - 1)\<bar> \<le> 1" "\<bar>510 * k - 200 * (255 - 1)\<bar> \<le> 255"
    by simp_all
  then have "c = 0" "m = 0" "y = 0" "k = 100"
    by simp_all
  with eq show ?thesis by simp
qed

lemma cmyk_to_rgb_black: "cmyk_to_rgb 0 0 0 100 = (0, 0, 0)"
proof -
  obtain r g b where eq: "cmyk_to_rgb 0 0 0 100 = (r, g, b)"
    by (cases "cmyk_to_rgb 0 0 0 100") auto
  from cmyk_to_rgb_channels [OF _ _ _ _ _ _ _ _ eq]
  have "\<bar>2000 * r - 51 * (100 - 0) * (100 - 100)\<bar> \<le> 1000"
    "\<bar>2000 * g - 51 * (100 - 0) * (100 - 100)\<bar> \<le> 1000"
    "\<bar>2000 * b - 51 * (100 - 0) * (100 - 100)\<bar> \<le> 1000"
    by simp_all
  then have "r = 0" "g = 0" "b = 0"
    by simp_all
  with eq show ?thesis by simp
qed

lemma cmyk_divisor_pos:
  assumes r: "0 \<le> r" "r \<le> 255" and g: "0 \<le> g" "g \<le> 255" and b: "0 \<le> b" "b \<le> 255"
    and nb: "(r, g, b) \<noteq> (0, 0, 0)"
  shows "1 / 256 \<le> cmyk_divisor (cmyk_k (norm255 r) (norm255 g) (norm255 b))"
proof -
  define M where "M = max (max r g) b"
  have M: "1 \<le> M" "M \<le> 255" and M0: "0 \<le> M"
    using nb r g b by (auto simp: M_def)
  note rn = norm255_err [OF r] and gn = norm255_err [OF g] and bn = norm255_err [OF b]
  have "\<bar>max (max (norm255 r) (norm255 g)) (norm255 b) - of_int M / 255\<bar> \<le> 1 / 2 ^ 38"
    unfolding M_def by (rule max3_approx [OF rn gn bn])
  from cmyk_divisor_approx [OF M0 M(2) this]
  have "\<bar>cmyk_divisor (cmyk_k (norm255 r) (norm255 g) (norm255 b)) - of_int M / 255\<bar> \<le> 3 / 2 ^ 38"
    by (simp add: cmyk_divisor_def cmyk_k_def)
  moreover have "1 / 255 \<le> (of_int M :: rat) / 255"
    using M by simp
  ultimately show ?thesis
    unfolding abs_le_iff by simp
qed

subsection \<open>Exact values\<close>

lemma fl_numeral: "(numeral n :: int) < 2 ^ 53 \<Longrightarrow> fl (numeral n) = numeral n"
  using fl_int [of "numeral n"] by simp

lemma norm255_0: "norm255 0 = 0"
  by (simp add: norm255_def fl_of_int_def fl_quot_def fl_0)

lemma norm255_255: "norm255 255 = 1"
  by (simp add: norm255_def fl_of_int_def fl_quot_def fl_numeral fl_consts)

lemma norm100_0: "norm100 0 = 0"
  by (simp add: norm100_def fl_of_int_def fl_quot_def fl_0)

lemma norm100_100: "norm100 100 = 1"
  by (simp add: norm100_def fl_of_int_def fl_quot_def fl_numeral fl_consts)

lemma norm100_50: "norm100 50 = 1 / 2"
  by (simp add: norm100_def fl_of_int_def fl_quot_def fl_numeral fl_consts)

lemma fl_mod_0: "fl_mod 0 w = 0"
  by (simp add: fl_mod_def c_fmod_def)

lemma fl_mod_below:
  assumes "0 \<le> v" "v < w"
  shows "fl_mod v w = v"
proof -
  have "0 \<le> v / w" "v / w < 1"
    using assms by simp_all
  then have "\<lfloor>v / w\<rfloor> = 0"
    by (simp add: floor_unique)
  with \<open>0 \<le> v / w\<close> have "c_fmod v w = v"
    by (simp add: c_fmod_def)
  with assms show ?thesis
    by (auto simp: fl_mod_def)
qed

lemma fl_mod_negative:
  assumes "- w < v" "v < 0"
  shows "fl_mod v w = fl_add v w"
proof -
  have w: "0 < w" using assms by linarith
  then have "v / w < 0" "- 1 < v / w"
    using assms by (simp_all add: field_simps)
  then have "\<lceil>v / w\<rceil> = 0"
    by (simp add: ceiling_unique)
  with \<open>v / w < 0\<close> have "c_fmod v w = v"
    by (simp add: c_fmod_def)
  with assms w show ?thesis
    by (auto simp: fl_mod_def)
qed

subsection \<open>Values of \<^verbatim>\<open>rgb_to_hls\<close> and \<^verbatim>\<open>hls_to_rgb\<close>\<close>

lemma rgb_to_hls_red: "rgb_to_hls 255 0 0 = Inr (0, 100, 50)"
proof -
  have d: "fl_sub 1 0 = 1" and l: "fl_quot (fl_add 1 0) 2 = 1 / 2"
    by (simp_all add: fl_sub_def fl_add_def fl_quot_def fl_consts)
  have h: "hls_hue 1 0 0 1 1 = 0"
    by (simp add: hls_hue_def fl_sub_def fl_quot_def fl_mul_def fl_0 fl_mod_0)
  have p: "py_round 0 = 0" "py_round (fl_mul 1 100) = 100" "py_round (fl_mul (1 / 2) 100) = 50"
    using py_round_of_int [of 0] py_round_of_int [of 100] py_round_of_int [of 50]
    by (simp_all add: fl_mul_def fl_numeral)
  show ?thesis
    by (simp add: rgb_to_hls_def Let_def norm255_0 norm255_255 hls_saturation_def fl_mod_0 d l h p)
qed

lemma rgb_to_hls_255_0_1: "rgb_to_hls 255 0 1 = Inr (360, 100, 50)"
proof -
  define a where "a = norm255 1"
  define n where "n = fl_sub 0 a"
  define x where "x = fl_quot n 1"
  define y where "y = fl_add x 6"
  define h where "h = fl_mul 60 y"
  have a: "\<bar>a - 1 / 255\<bar> \<le> 1 / 2 ^ 38"
    using norm255_err [of 1] by (simp add: a_def)
  then have a01: "0 \<le> a" "a \<le> 1"
    unfolding abs_le_iff by simp_all
  have cmax: "max 1 a = 1" and cmin: "min 0 a = 0"
    using a01 by simp_all
  have d: "fl_sub 1 0 = 1" and l: "fl_quot (fl_add 1 0) 2 = 1 / 2"
    by (simp_all add: fl_sub_def fl_add_def fl_quot_def fl_consts)
  have "\<bar>0 - a\<bar> \<le> 32768"
    using a01 by simp
  from fl_err [OF this] a have n: "\<bar>n - (- 1 / 255)\<bar> \<le> 2 / 2 ^ 38"
    unfolding n_def fl_sub_def abs_le_iff by simp
  then have "\<bar>n / 1\<bar> \<le> 32768"
    unfolding abs_le_iff by simp
  from fl_err [OF this] n have x: "\<bar>x - (- 1 / 255)\<bar> \<le> 3 / 2 ^ 38"
    unfolding x_def fl_quot_def abs_le_iff by simp
  then have xr: "- 6 < x" "x < 0"
    unfolding abs_le_iff by simp_all
  then have m6: "fl_mod x 6 = y"
    unfolding y_def by (rule fl_mod_negative)
  have "\<bar>x + 6\<bar> \<le> 32768"
    using xr by simp
  from fl_err [OF this] x have y: "\<bar>y - (6 - 1 / 255)\<bar> \<le> 4 / 2 ^ 38"
    unfolding y_def fl_add_def abs_le_iff by simp
  then have "\<bar>60 * y\<bar> \<le> 32768"
    unfolding abs_le_iff by simp
  from fl_err [OF this] y have h: "\<bar>h - (360 - 60 / 255)\<bar> \<le> 241 / 2 ^ 38"
    unfolding h_def fl_mul_def abs_le_iff by simp
  then have hr: "0 \<le> h" "h < 360" "of_int 360 - 1 / 2 < h" "h < of_int 360 + 1 / 2"
    unfolding abs_le_iff by simp_all
  have hue: "hls_hue 1 0 a 1 1 = h"
    by (simp add: hls_hue_def m6 flip: n_def x_def h_def)
  have "fl_mod h 360 = h"
    using hr(1,2) by (rule fl_mod_below)
  moreover have "py_round h = 360"
    using hr(3,4) by (rule py_round_unique)
  ultimately have ph: "py_round (fl_mod h 360) = 360"
    by simp
  have p: "py_round (fl_mul 1 100) = 100" "py_round (fl_mul (1 / 2) 100) = 50"
    using py_round_of_int [of 100] py_round_of_int [of 50]
    by (simp_all add: fl_mul_def fl_numeral)
  show ?thesis
    by (simp add: rgb_to_hls_def Let_def norm255_0 norm255_255 hls_saturation_def cmax cmin d l hue ph p
        flip: a_def)
qed

lemma rgb_to_hls_grey:
  assumes r: "0 \<le> r" "r \<le> 255"
  shows "\<exists>v. rgb_to_hls r r r = Inr (0, 0, v) \<and> \<bar>510 * v - 200 * r\<bar> \<le> 255"
proof -
  define a where "a = norm255 r"
  define l where "l = fl_quot (fl_add a a) 2"
  define v where "v = py_round (fl_mul l 100)"
  define rq :: rat where "rq = of_int r"
  have rq: "0 \<le> rq" "rq \<le> 255"
    using r by (simp_all add: rq_def)
  have a: "\<bar>a - rq / 255\<bar> \<le> 1 / 2 ^ 38"
    unfolding a_def rq_def by (rule norm255_err [OF r])
  have "\<bar>a + a\<bar> \<le> 32768"
    using a rq unfolding abs_le_iff by simp
  from fl_err [OF this] a have s: "\<bar>fl_add a a - 2 * rq / 255\<bar> \<le> 3 / 2 ^ 38"
    unfolding fl_add_def abs_le_iff by simp
  then have "\<bar>fl_add a a / 2\<bar> \<le> 32768"
    using rq unfolding abs_le_iff by simp
  from fl_err [OF this] s have l: "\<bar>l - rq / 255\<bar> \<le> 3 / 2 ^ 38"
    unfolding l_def fl_quot_def abs_le_iff by simp
  then have "\<bar>l * 100\<bar> \<le> 32768"
    using rq unfolding abs_le_iff by simp
  from fl_err [OF this] l have "\<bar>fl_mul l 100 - 100 * rq / 255\<bar> \<le> 301 / 2 ^ 38"
    unfolding fl_mul_def abs_le_iff by simp
  moreover have "\<bar>of_int v - fl_mul l 100\<bar> \<le> 1 / 2"
    unfolding v_def by (rule py_round_error)
  ultimately have "\<bar>510 * of_int v - 200 * rq\<bar> < 256"
    unfolding abs_le_iff abs_less_iff by simp
  then have "(of_int \<bar>510 * v - 200 * r\<bar> :: rat) < of_int 256"
    by (simp add: rq_def)
  then have "\<bar>510 * v - 200 * r\<bar> < 256"
    by (simp only: of_int_less_iff)
  moreover have "fl_sub a a = 0" "fl_mul 0 100 = 0" "py_round 0 = 0"
    using py_round_of_int [of 0] by (simp_all add: fl_sub_def fl_mul_def fl_0)
  then have "rgb_to_hls r r r = Inr (0, 0, v)"
    by (simp add: rgb_to_hls_def Let_def fl_mod_0 flip: a_def l_def v_def)
  ultimately show ?thesis
    by auto
qed

lemma rgb_to_hls_128: "rgb_to_hls 128 128 128 = Inr (0, 0, 50)"
proof -
  from rgb_to_hls_grey [of 128] obtain v
    where "rgb_to_hls 128 128 128 = Inr (0, 0, v)" "\<bar>510 * v - 200 * 128\<bar> \<le> 255"
    by auto
  moreover from this(2) have "v = 50"
    by simp
  ultimately show ?thesis
    by simp
qed

lemma hue_to_rgb_flat: "hue_to_rgb 1 1 t = 1"
  by (simp add: hue_to_rgb_def Let_def fl_sub_def fl_mul_def fl_add_def fl_0 fl_consts)

lemma hls_to_rgb_0_100_50: "hls_to_rgb 0 100 50 = (255, 255, 255)"
proof -
  have q: "fl_sub (fl_add 1 (1 / 2)) (fl_mul 1 (1 / 2)) = 1"
    by (simp add: fl_sub_def fl_add_def fl_mul_def fl_consts)
  have p: "fl_sub (fl_mul 2 1) 1 = 1"
    by (simp add: fl_sub_def fl_mul_def fl_consts)
  have c: "to_channel (fl_mul 1 255) = 255"
    using py_round_of_int [of 255] by (simp add: to_channel_def fl_mul_def fl_numeral)
  show ?thesis
    by (simp add: hls_to_rgb_def Let_def norm100_100 norm100_50 q p c hue_to_rgb_flat)
qed

lemma hls_roundtrip_red: "hls_roundtrip 255 0 0 = Inr (255, 255, 255)"
  by (simp add: hls_roundtrip_def rgb_to_hls_red hls_to_rgb_0_100_50)

lemma hls_to_rgb_grey:
  assumes l: "0 \<le> l" "l \<le> 100"
  shows "hls_to_rgb h l 0 = (py_round (fl_mul (norm100 l) 255), py_round (fl_mul (norm100 l) 255),
           py_round (fl_mul (norm100 l) 255))"
    and "\<bar>200 * py_round (fl_mul (norm100 l) 255) - 510 * l\<bar> \<le> 100"
proof -
  define x where "x = fl_mul (norm100 l) 255"
  define v where "v = py_round x"
  define lq :: rat where "lq = of_int l"
  have lq: "0 \<le> lq" "lq \<le> 100"
    using l by (simp_all add: lq_def)
  have n: "\<bar>norm100 l - lq / 100\<bar> \<le> 1 / 2 ^ 38"
    unfolding lq_def by (rule norm100_err [OF l])
  then have "\<bar>norm100 l * 255\<bar> \<le> 32768"
    using lq unfolding abs_le_iff by simp
  from fl_err [OF this] n have "\<bar>x - 255 * lq / 100\<bar> \<le> 256 / 2 ^ 38"
    unfolding x_def fl_mul_def abs_le_iff by simp
  moreover have "\<bar>of_int v - x\<bar> \<le> 1 / 2"
    unfolding v_def by (rule py_round_error)
  ultimately have "\<bar>200 * of_int v - 510 * lq\<bar> < 101"
    unfolding abs_le_iff abs_less_iff by simp
  then have "(of_int \<bar>200 * v - 510 * l\<bar> :: rat) < of_int 101"
    by (simp add: lq_def)
  then have "\<bar>200 * v - 510 * l\<bar> < 101"
    by (simp only: of_int_less_iff)
  then have b: "\<bar>200 * v - 510 * l\<bar> \<le> 100"
    by simp
  with l have "0 \<le> v" "v \<le> 255"
    unfolding abs_le_iff by simp_all
  then have "to_channel x = v"
    by (simp add: to_channel_def v_def)
  then show "hls_to_rgb h l 0 = (py_round (fl_mul (norm100 l) 255), py_round (fl_mul (norm100 l) 255),
           py_round (fl_mul (norm100 l) 255))"
    by (simp add: hls_to_rgb_def Let_def norm100_0 flip: x_def v_def)
  from b show "\<bar>200 * py_round (fl_mul (norm100 l) 255) - 510 * l\<bar> \<le> 100"
    by (simp add: v_def x_def)
qed

section \<open>Fixed points of the interface\<close>

text \<open>
  C7. \<^verbatim>\<open>rgb_to_cmyk(0, 0, 0)\<close> returns \<^verbatim>\<open>(0, 0, 0, 100)\<close> exactly: the all-black
  case is answered before any division.
\<close>

theorem rgb_to_cmyk_black: "rgb_to_cmyk 0 0 0 = (0, 0, 0, 100)"
  by (simp add: rgb_to_cmyk_def)

section \<open>The round trip through CMYK\<close>

text \<open>
  C1 (as stated). The claim asks that both round trips return the very triple they
  started from. The CMYK one does not: \<^verbatim>\<open>rgb_to_cmyk(1, 1, 1)\<close> is \<^verbatim>\<open>(0, 0, 0, 100)\<close>, since
  99.6 per cent of black rounds to 100, and \<^verbatim>\<open>cmyk_to_rgb(0, 0, 0, 100)\<close> is black.
\<close>

theorem roundtrips_not_exact:
  "\<not> (cmyk_roundtrip 1 1 1 = (1, 1, 1) \<and> hls_roundtrip 1 1 1 = Inr (1, 1, 1))"
  by (simp add: cmyk_roundtrip_def rgb_to_cmyk_1_1_1 cmyk_to_rgb_black)

text \<open>
  C1 (as amended). For every RGB triple with each component in \<open>[0, 255]\<close>, applying
  \<^verbatim>\<open>cmyk_to_rgb\<close> to the four components of the tuple returned by \<^verbatim>\<open>rgb_to_cmyk\<close> gives a
  valid RGB triple that differs from the original by at most 2 in each channel: the
  round trip through whole percentages is lossless only up to this rounding.
\<close>

theorem cmyk_roundtrip_up_to_rounding:
  assumes "0 \<le> r" "r \<le> 255" "0 \<le> g" "g \<le> 255" "0 \<le> b" "b \<le> 255"
  shows "case rgb_to_cmyk r g b of (c, m, y, k) \<Rightarrow>
           (case cmyk_to_rgb c m y k of (r', g', b') \<Rightarrow>
              \<bar>r' - r\<bar> \<le> 2 \<and> \<bar>g' - g\<bar> \<le> 2 \<and> \<bar>b' - b\<bar> \<le> 2 \<and>
              0 \<le> r' \<and> r' \<le> 255 \<and> 0 \<le> g' \<and> g' \<le> 255 \<and> 0 \<le> b' \<and> b' \<le> 255)"
proof -
  obtain c m y k where f: "rgb_to_cmyk r g b = (c, m, y, k)"
    by (cases "rgb_to_cmyk r g b") auto
  obtain r' g' b' where t: "cmyk_to_rgb c m y k = (r', g', b')"
    by (cases "cmyk_to_rgb c m y k") auto
  from cmyk_roundtrip_close [OF assms] have "\<bar>r' - r\<bar> \<le> 2 \<and> \<bar>g' - g\<bar> \<le> 2 \<and> \<bar>b' - b\<bar> \<le> 2"
    by (simp add: cmyk_roundtrip_def f t)
  moreover from t have "0 \<le> r' \<and> r' \<le> 255 \<and> 0 \<le> g' \<and> g' \<le> 255 \<and> 0 \<le> b' \<and> b' \<le> 255"
    by (auto simp: cmyk_to_rgb_def Let_def to_channel_def)
  ultimately show ?thesis
    by (simp add: f t)
qed

theorem cmyk_roundtrip_up_to_rounding_witness:
  "(0::int) \<le> 1 \<and> (1::int) \<le> 255 \<and>
   (case rgb_to_cmyk 1 1 1 of (c, m, y, k) \<Rightarrow>
      (case cmyk_to_rgb c m y k of (r', g', b') \<Rightarrow>
         \<bar>r' - 1\<bar> \<le> 2 \<and> \<bar>g' - 1\<bar> \<le> 2 \<and> \<bar>b' - 1\<bar> \<le> 2 \<and>
         0 \<le> r' \<and> r' \<le> 255 \<and> 0 \<le> g' \<and> g' \<le> 255 \<and> 0 \<le> b' \<and> b' \<le> 255))"
  using cmyk_roundtrip_up_to_rounding [of 1 1 1] by simp

text \<open>
  C4 (as stated). One unit of tolerance is not enough: \<^verbatim>\<open>rgb_to_cmyk(253, 254, 254)\<close> is
  \<^verbatim>\<open>(0, 0, 0, 0)\<close>, because both 0.39 per cent of cyan and 0.39 per cent of black round to 0,
  and \<^verbatim>\<open>cmyk_to_rgb(0, 0, 0, 0)\<close> is white: the red channel comes back as 255.
\<close>

theorem cmyk_roundtrip_not_within_1:
  "\<not> close_to 1 (253, 254, 254) (cmyk_roundtrip 253 254 254)"
  by (simp add: cmyk_roundtrip_def rgb_to_cmyk_253_254_254 cmyk_to_rgb_white)

text \<open>
  C4 (as amended). For every RGB triple with each component in \<open>[0, 255]\<close>,
  \<^verbatim>\<open>cmyk_to_rgb(rgb_to_cmyk(r, g, b))\<close> equals \<open>(r, g, b)\<close> within 2 per channel.
\<close>

theorem cmyk_roundtrip_within_2:
  assumes "0 \<le> r" "r \<le> 255" "0 \<le> g" "g \<le> 255" "0 \<le> b" "b \<le> 255"
  shows "close_to 2 (r, g, b) (cmyk_roundtrip r g b)"
  using assms by (rule cmyk_roundtrip_close)

theorem cmyk_roundtrip_within_2_witness:
  "(0::int) \<le> 253 \<and> (253::int) \<le> 255 \<and> (0::int) \<le> 254 \<and> (254::int) \<le> 255 \<and>
   close_to 2 (253, 254, 254) (cmyk_roundtrip 253 254 254)"
  using cmyk_roundtrip_within_2 [of 253 254 254] by simp

section \<open>The divisor of \<^verbatim>\<open>rgb_to_cmyk\<close>\<close>

text \<open>
  C10. For every RGB triple with each component in \<open>[0, 255]\<close> other than black, the
  divisor \<^verbatim>\<open>1 - k\<close> of \<^verbatim>\<open>rgb_to_cmyk\<close> is strictly positive, so that each chromatic channel
  is the quotient and never the fallback value of the zero-divisor branch.
\<close>

theorem cmyk_divisor_positive:
  assumes "0 \<le> r" "r \<le> 255" "0 \<le> g" "g \<le> 255" "0 \<le> b" "b \<le> 255"
    and "(r, g, b) \<noteq> (0, 0, 0)"
  shows "0 < cmyk_divisor (cmyk_k (norm255 r) (norm255 g) (norm255 b)) \<and>
         cmyk_channel x_norm (cmyk_k (norm255 r) (norm255 g) (norm255 b)) =
           fl_quot (fl_sub (fl_sub 1 x_norm) (cmyk_k (norm255 r) (norm255 g) (norm255 b)))
             (cmyk_divisor (cmyk_k (norm255 r) (norm255 g) (norm255 b)))"
proof -
  have "1 / 256 \<le> cmyk_divisor (cmyk_k (norm255 r) (norm255 g) (norm255 b))"
    using assms by (rule cmyk_divisor_pos)
  then have "0 < cmyk_divisor (cmyk_k (norm255 r) (norm255 g) (norm255 b))"
    by simp
  then show ?thesis
    by (simp add: cmyk_channel_def)
qed

theorem cmyk_divisor_positive_witness:
  "(0::int) \<le> 1 \<and> (1::int) \<le> 255 \<and> (0::int) \<le> 0 \<and> (0::int) \<le> 255 \<and>
   ((1::int), (0::int), (0::int)) \<noteq> (0, 0, 0) \<and>
   0 < cmyk_divisor (cmyk_k (norm255 1) (norm255 0) (norm255 0)) \<and>
   cmyk_channel (norm255 0) (cmyk_k (norm255 1) (norm255 0) (norm255 0)) =
     fl_quot (fl_sub (fl_sub 1 (norm255 0)) (cmyk_k (norm255 1) (norm255 0) (norm255 0)))
       (cmyk_divisor (cmyk_k (norm255 1) (norm255 0) (norm255 0)))"
  using cmyk_divisor_positive [of 1 0 0 "norm255 0"] by simp

section \<open>Values of the HLS conversions\<close>

text \<open>
  C6. \<^verbatim>\<open>rgb_to_hls(255, 0, 0)\<close> returns the tuple \<^verbatim>\<open>(0, 100, 50)\<close> exactly: hue 0, then the
  saturation 100, then the lightness 50.
\<close>

theorem rgb_to_hls_pure_red: "rgb_to_hls 255 0 0 = Inr (0, 100, 50)"
  by (rule rgb_to_hls_red)

text \<open>
  C2. The claim is that the hue returned by \<^verbatim>\<open>rgb_to_hls\<close> is always below 360. The code
  rounds after reducing modulo 360: for \<^verbatim>\<open>(255, 0, 1)\<close> the hue before rounding is
  about 359.76, and the returned hue is 360.
\<close>

theorem rgb_to_hls_hue_360: "rgb_to_hls 255 0 1 = Inr (360, 100, 50)"
  by (rule rgb_to_hls_255_0_1)

text \<open>
  C5. The claim reads the returned tuple as (h, l, s) and expects, for a grey
  \<^verbatim>\<open>(r, r, r)\<close>, the lightness second and the saturation 0 third. The code returns the
  saturation second and the lightness third: for \<^verbatim>\<open>(128, 128, 128)\<close> the tuple is
  \<^verbatim>\<open>(0, 0, 50)\<close>, where the claim expects \<^verbatim>\<open>(0, 50, 0)\<close>.
\<close>

theorem rgb_to_hls_grey_128: "rgb_to_hls 128 128 128 = Inr (0, 0, 50)"
  by (rule rgb_to_hls_128)

text \<open>
  C3. Passing the tuple returned by \<^verbatim>\<open>rgb_to_hls\<close> to \<^verbatim>\<open>hls_to_rgb\<close> by position does not
  give back the colour within 1 per channel: pure red \<^verbatim>\<open>(255, 0, 0)\<close> becomes
  \<^verbatim>\<open>(0, 100, 50)\<close>, which \<^verbatim>\<open>hls_to_rgb\<close> reads as lightness 100 and saturation 50, and
  comes back as white.
\<close>

theorem hls_roundtrip_red_is_white:
  "hls_roundtrip 255 0 0 = Inr (255, 255, 255) \<and> \<not> close_to 1 (255, 0, 0) (255, 255, 255)"
  by (simp add: hls_roundtrip_red)

text \<open>
  C8. For every integer \<open>h\<close> in \<open>[0, 360)\<close> and every integer \<open>l\<close> in \<open>[0, 100]\<close>,
  \<^verbatim>\<open>hls_to_rgb(h, l, 0)\<close> returns three equal channels \<^verbatim>\<open>round(l / 100 * 255)\<close>, whatever the
  hue; this value is an integer nearest to \<open>255 * l / 100\<close>, and the clamping to
  \<open>[0, 255]\<close> does not change it.
\<close>

theorem hls_to_rgb_achromatic:
  assumes "0 \<le> h" "h < 360" "0 \<le> l" "l \<le> 100"
  shows "let v = py_round (fl_mul (fl_quot (fl_of_int l) 100) 255)
         in hls_to_rgb h l 0 = (v, v, v) \<and> \<bar>200 * v - 510 * l\<bar> \<le> 100"
  using hls_to_rgb_grey(1) [OF assms(3,4), of h] hls_to_rgb_grey(2) [OF assms(3,4)]
  by (simp add: Let_def norm100_def)

theorem hls_to_rgb_achromatic_witness:
  "(0::int) \<le> 180 \<and> (180::int) < 360 \<and> (0::int) \<le> 50 \<and> (50::int) \<le> 100 \<and>
   (let v = py_round (fl_mul (fl_quot (fl_of_int 50) 100) 255)
    in hls_to_rgb 180 50 0 = (v, v, v) \<and> \<bar>200 * v - 510 * 50\<bar> \<le> 100)"
  using hls_to_rgb_achromatic [of 180 50] by simp

section \<open>The numeric field of a slider\<close>

lemma slider_text_examples:
  "int_of_text ''12a'' = None" "int_of_text '' -42 '' = Some (- 42)" "str_int (- 128) = ''-128''"
  by (simp_all add: int_of_text_def is_blank_def is_digit_def digits_value_def str_int_def)

text \<open>
  C9. When the text of the numeric field does not parse as an integer, \<^verbatim>\<open>on_input_changed\<close>
  puts the slider's current value back into the field and does nothing else: the slider
  keeps its value and no \<^verbatim>\<open>valueChanged\<close> notification is sent, so that neither an error nor
  a value reaches the conversion functions.
\<close>

theorem on_input_changed_parse_error:
  assumes "parse (input_text st) = None"
  shows "on_input_changed parse st = st\<lparr>input_text := str_int (slider_value st)\<rparr>
    \<and> emitted (on_input_changed parse st) = emitted st
    \<and> slider_value (on_input_changed parse st) = slider_value st"
  using assms by (simp add: on_input_changed_def)

theorem on_input_changed_parse_error_witness:
  "int_of_text (input_text \<lparr>index = 0, min_val = 0, max_val = 255, slider_value = 128,
       input_text = ''12a'', emitted = []\<rparr>) = None
   \<and> on_input_changed int_of_text \<lparr>index = 0, min_val = 0, max_val = 255, slider_value = 128,
       input_text = ''12a'', emitted = []\<rparr>
     = \<lparr>index = 0, min_val = 0, max_val = 255, slider_value = 128,
       input_text = str_int 128, emitted = []\<rparr>"
proof -
  have "int_of_text ''12a'' = None"
    by (simp add: int_of_text_def is_blank_def is_digit_def)
  then show ?thesis
    using on_input_changed_parse_error [of int_of_text "\<lparr>index = 0, min_val = 0, max_val = 255,
      slider_value = 128, input_text = ''12a'', emitted = []\<rparr>"]
    by simp
qed

end
